theory Spec2Isabelle
  imports Main "HOL-Library.Word" "HOL-Library.Monad_Syntax"
begin

section \<open>The toroidal Game-of-Life engine of perf.cpp\<close>

text \<open>
  The board is the class template \<open>GameBoard<Width, Height>\<close>. Its two template
  parameters are \<open>std::size_t\<close> values, taken to be 64 bits wide; the model passes them to
  every member function as the words \<open>W\<close> and \<open>H\<close>. The coordinates of a \<open>Point\<close> are \<open>std::int64_t\<close>
  (\<open>x_index_t\<close>, \<open>y_index_t\<close>); they are modelled by their 64 bits, read as a signed number
  by \<open>sint\<close>. Where C++ mixes the two types in one arithmetic expression the signed
  operand is converted to \<open>std::size_t\<close>, which keeps the bits, and the operation is the
  unsigned one: that is what \<open>mod\<close>, \<open>+\<close>, \<open>*\<close> and \<open><\<close> on \<open>64 word\<close> are.
  Signed overflow of a coordinate (undefined in C++) wraps in the model; the theorems that
  depend on coordinates staying in range say so.
\<close>

type_synonym size_t = "64 word"
type_synonym index_t = "64 word"

subsection \<open>floor_modulo\<close>

text \<open>
  \<open>floor_modulo(auto dividend, auto divisor)\<close> is only called from \<open>index\<close>, with an
  \<open>int64_t\<close> dividend and the \<open>std::size_t\<close> constants \<open>width\<close> and \<open>height\<close> as
  divisor, so both \<open>%\<close> and the \<open>+\<close> are computed in \<open>std::size_t\<close>.
  A zero divisor is undefined behaviour in C++; the model returns \<open>None\<close> there.
\<close>

definition floor_modulo :: "index_t \<Rightarrow> size_t \<Rightarrow> size_t option" where
  "floor_modulo dividend divisor =
     (if divisor = 0 then None else Some (((dividend mod divisor) + divisor) mod divisor))"

subsection \<open>Point\<close>

record Point =
  x :: index_t
  y :: index_t

definition point_add :: "Point \<Rightarrow> Point \<Rightarrow> Point" where
  "point_add p rhs = \<lparr>x = x p + x rhs, y = y p + y rhs\<rparr>"

definition neighbors :: "Point list" where
  "neighbors =
     [\<lparr>x = - 1, y = 0\<rparr>, \<lparr>x = 1, y = 0\<rparr>,
      \<lparr>x = - 1, y = - 1\<rparr>, \<lparr>x = 0, y = - 1\<rparr>, \<lparr>x = 1, y = - 1\<rparr>,
      \<lparr>x = - 1, y = 1\<rparr>, \<lparr>x = 0, y = 1\<rparr>, \<lparr>x = 1, y = 1\<rparr>]"

subsection \<open>GameBoard\<close>

text \<open>
  The only data member is \<open>std::array<bool, Width * Height> data\<close>; a board is the list
  of its cells. A default-constructed board (\<open>std::make_unique<board_type>()\<close>) has
  \<open>Width * Height\<close> cells, the product taken in \<open>std::size_t\<close>, all \<open>false\<close>.
\<close>

type_synonym board = "bool list"

definition new_board :: "size_t \<Rightarrow> size_t \<Rightarrow> board" where
  "new_board W H = replicate (unat (W * H)) False"

definition index :: "size_t \<Rightarrow> size_t \<Rightarrow> Point \<Rightarrow> size_t option" where
  "index W H p = do {
     row \<leftarrow> floor_modulo (y p) H;
     col \<leftarrow> floor_modulo (x p) W;
     Some (row * W + col)
   }"

text \<open>
  \<open>operator[]\<close> and \<open>set\<close> access \<open>data[index(p)]\<close>. An access outside the array is
  undefined behaviour (and stops a constant evaluation); the model returns \<open>None\<close> there.
\<close>

definition get :: "size_t \<Rightarrow> size_t \<Rightarrow> board \<Rightarrow> Point \<Rightarrow> bool option" where
  "get W H d p = do {
     i \<leftarrow> index W H p;
     if unat i < length d then Some (d ! unat i) else None
   }"

definition set_cell :: "size_t \<Rightarrow> size_t \<Rightarrow> board \<Rightarrow> Point \<Rightarrow> board option" where
  "set_cell W H d p = do {
     i \<leftarrow> index W H p;
     if unat i < length d then Some (d[unat i := True]) else None
   }"

text \<open>The loop of \<open>count_neighbors\<close> over the eight offsets, \<open>count\<close> starting at 0.\<close>

fun count_loop :: "size_t \<Rightarrow> size_t \<Rightarrow> board \<Rightarrow> Point \<Rightarrow> Point list \<Rightarrow> nat \<Rightarrow> nat option" where
  "count_loop W H d p [] count = Some count"
| "count_loop W H d p (neighbor # rest) count =
     (case get W H d (point_add p neighbor) of
        None \<Rightarrow> None
      | Some alive \<Rightarrow> count_loop W H d p rest (if alive then count + 1 else count))"

definition count_neighbors :: "size_t \<Rightarrow> size_t \<Rightarrow> board \<Rightarrow> Point \<Rightarrow> nat option" where
  "count_neighbors W H d p = count_loop W H d p neighbors 0"

text \<open>
  \<open>make_indexes\<close>: the result array has \<open>Width * Height\<close> value-initialised points; the
  two nested loops store \<open>Point{x, y}\<close> at \<open>output_index\<close> and advance it. The loop
  variables are \<open>int64_t\<close> and are compared with the \<open>std::size_t\<close> bounds, an unsigned
  comparison.
\<close>

function x_loop :: "size_t \<Rightarrow> index_t \<Rightarrow> index_t \<Rightarrow> Point list \<Rightarrow> nat \<Rightarrow> (Point list \<times> nat) option" where
  "x_loop W yv xv result output_index =
     (if xv < W then
        (if output_index < length result
         then x_loop W yv (xv + 1) (result[output_index := \<lparr>x = xv, y = yv\<rparr>]) (output_index + 1)
         else None)
      else Some (result, output_index))"
  by pat_completeness auto
termination
proof (relation "measure (\<lambda>(W, yv, xv, result, output_index). unat W - unat xv)")
  show "wf (measure (\<lambda>(W, yv, xv, result, output_index). unat W - unat xv))"
    by simp
next
  fix W yv xv :: "64 word" and result :: "Point list" and output_index :: nat
  assume lt: "xv < W"
  then have below: "unat xv < unat W"
    by (simp add: word_less_nat_alt)
  moreover have "unat W < 2 ^ 64"
    using unsigned_less [of W, where ?'a = nat] by simp
  ultimately have "unat xv + unat (1 :: 64 word) < 2 ^ LENGTH(64)"
    by simp
  then have "unat (xv + 1) = unat xv + unat (1 :: 64 word)"
    by (simp only: unat_add_lem)
  with below show "((W, yv, xv + 1, result[output_index := \<lparr>x = xv, y = yv\<rparr>], output_index + 1),
      (W, yv, xv, result, output_index))
      \<in> measure (\<lambda>(W, yv, xv, result, output_index). unat W - unat xv)"
    by simp
qed

function y_loop :: "size_t \<Rightarrow> size_t \<Rightarrow> index_t \<Rightarrow> Point list \<Rightarrow> nat \<Rightarrow> (Point list \<times> nat) option" where
  "y_loop W H yv result output_index =
     (if yv < H then
        (case x_loop W yv 0 result output_index of
           None \<Rightarrow> None
         | Some (result', output_index') \<Rightarrow> y_loop W H (yv + 1) result' output_index')
      else Some (result, output_index))"
  by pat_completeness auto
termination
proof (relation "measure (\<lambda>(W, H, yv, result, output_index). unat H - unat yv)")
  show "wf (measure (\<lambda>(W, H, yv, result, output_index). unat H - unat yv))"
    by simp
next
  fix W H yv :: "64 word" and result result' :: "Point list" and output_index output_index' :: nat
  assume lt: "yv < H"
  then have below: "unat yv < unat H"
    by (simp add: word_less_nat_alt)
  moreover have "unat H < 2 ^ 64"
    using unsigned_less [of H, where ?'a = nat] by simp
  ultimately have "unat yv + unat (1 :: 64 word) < 2 ^ LENGTH(64)"
    by simp
  then have "unat (yv + 1) = unat yv + unat (1 :: 64 word)"
    by (simp only: unat_add_lem)
  with below show "((W, H, yv + 1, result', output_index'), (W, H, yv, result, output_index))
      \<in> measure (\<lambda>(W, H, yv, result, output_index). unat H - unat yv)"
    by simp
qed

definition make_indexes :: "size_t \<Rightarrow> size_t \<Rightarrow> Point list option" where
  "make_indexes W H =
     map_option fst (y_loop W H 0 (replicate (unat (W * H)) \<lparr>x = 0, y = 0\<rparr>) 0)"

definition add_glider :: "size_t \<Rightarrow> size_t \<Rightarrow> board \<Rightarrow> Point \<Rightarrow> board option" where
  "add_glider W H d p = do {
     d1 \<leftarrow> set_cell W H d p;
     d2 \<leftarrow> set_cell W H d1 (point_add p \<lparr>x = 1, y = 1\<rparr>);
     d3 \<leftarrow> set_cell W H d2 (point_add p \<lparr>x = 2, y = 1\<rparr>);
     d4 \<leftarrow> set_cell W H d3 (point_add p \<lparr>x = 0, y = 2\<rparr>);
     set_cell W H d4 (point_add p \<lparr>x = 1, y = 2\<rparr>)
   }"

subsection \<open>iterate_board\<close>

text \<open>
  The branches of the lambda \<open>rules\<close> on its two locals \<open>is_alive\<close> and
  \<open>neighbor_count\<close>; the trailing \<open>return true\<close> of the source is unreachable.
\<close>

definition rules_branches :: "bool \<Rightarrow> nat \<Rightarrow> bool" where
  "rules_branches is_alive neighbor_count =
     (if is_alive then
        (if neighbor_count < 2 then False
         else if neighbor_count \<le> 3 then True
         else False)
      else
        (if neighbor_count = 3 then True else False))"

definition rules :: "size_t \<Rightarrow> size_t \<Rightarrow> board \<Rightarrow> Point \<Rightarrow> bool option" where
  "rules W H input p = do {
     neighbor_count \<leftarrow> count_neighbors W H input p;
     is_alive \<leftarrow> get W H input p;
     Some (rules_branches is_alive neighbor_count)
   }"

text \<open>
  \<open>std::transform(first, last, d_first, op)\<close>: for each element in order, the result of
  \<open>op\<close> is stored at the output position, which then advances. A store past the end of
  the output is \<open>None\<close>.
\<close>

fun transform :: "('a \<Rightarrow> 'b option) \<Rightarrow> 'a list \<Rightarrow> 'b list \<Rightarrow> nat \<Rightarrow> 'b list option" where
  "transform op [] out d_first = Some out"
| "transform op (a # rest) out d_first =
     (case op a of
        None \<Rightarrow> None
      | Some v \<Rightarrow>
          if d_first < length out then transform op rest (out[d_first := v]) (Suc d_first)
          else None)"

definition iterate_board :: "size_t \<Rightarrow> size_t \<Rightarrow> board \<Rightarrow> board \<Rightarrow> Point list \<Rightarrow> board option" where
  "iterate_board W H input output indices = transform (rules W H input) indices output 0"

subsection \<open>run_board\<close>

text \<open>
  The loop of \<open>run_board\<close>: each round steps \<open>board1\<close> into \<open>board2\<close> and swaps the two
  pointers. The result is the pair \<open>(board1, board2)\<close> after the last round.
\<close>

fun run_loop :: "size_t \<Rightarrow> size_t \<Rightarrow> Point list \<Rightarrow> nat \<Rightarrow> board \<Rightarrow> board \<Rightarrow> (board \<times> board) option" where
  "run_loop W H indices 0 board1 board2 = Some (board1, board2)"
| "run_loop W H indices (Suc n) board1 board2 =
     (case iterate_board W H board1 board2 indices of
        None \<Rightarrow> None
      | Some board2' \<Rightarrow> run_loop W H indices n board2' board1)"

text \<open>
  \<open>run_board\<close> from the allocation of \<open>board2\<close> on, for a \<open>board1\<close> that is already
  seeded; it returns the board that \<open>board1\<close> points to after the loop.
\<close>

definition simulate :: "size_t \<Rightarrow> size_t \<Rightarrow> board \<Rightarrow> nat \<Rightarrow> board option" where
  "simulate W H board1 Iterations = do {
     indices \<leftarrow> make_indexes W H;
     r \<leftarrow> run_loop W H indices Iterations board1 (new_board W H);
     Some (fst r)
   }"

definition run_board :: "size_t \<Rightarrow> size_t \<Rightarrow> nat \<Rightarrow> bool option" where
  "run_board W H Iterations = do {
     b \<leftarrow> add_glider W H (new_board W H) \<lparr>x = 1, y = 3\<rparr>;
     board1 \<leftarrow> add_glider W H b \<lparr>x = 10, y = 1\<rparr>;
     final \<leftarrow> simulate W H board1 Iterations;
     get W H final \<lparr>x = 0, y = 0\<rparr>
   }"

subsection \<open>Row-major enumeration\<close>

text \<open>
  The specification's description of the index cache: every coordinate of the board, row by
  row. It is not part of the source; \<open>make_indexes\<close> is compared with it below.
\<close>

definition row_major :: "size_t \<Rightarrow> size_t \<Rightarrow> Point list" where
  "row_major W H =
     concat (map (\<lambda>j. map (\<lambda>i. \<lparr>x = of_nat i, y = of_nat j\<rparr>) [0..<unat W]) [0..<unat H])"

subsection \<open>Boards given by their live slots\<close>

text \<open>
  Not part of the source: a board of \<open>n\<close> cells described by the list of its live
  slots, and the eight storage slots that \<open>count_neighbors\<close> reads for the cell in column
  \<open>c\<close> and row \<open>r\<close>, in the order of \<open>neighbors\<close>. A coordinate \<open>-1\<close> is the
  \<open>std::size_t\<close> value \<open>2^64 - 1\<close> when it is wrapped, so column 0 looks at column
  \<open>xt = (2^64 - 1) mod w\<close> and row 0 at row \<open>yt = (2^64 - 1) mod h\<close>. These
  definitions are proved equal to the source functions below and serve to evaluate a step
  on a concrete board.
\<close>

definition board_of :: "nat list \<Rightarrow> nat \<Rightarrow> board" where
  "board_of L n = map (\<lambda>i. i \<in> set L) [0..<n]"

definition neighbor_slots :: "nat \<Rightarrow> nat \<Rightarrow> nat \<Rightarrow> nat \<Rightarrow> nat \<Rightarrow> nat \<Rightarrow> nat list" where
  "neighbor_slots w h xt yt c r =
     (let cl = (if c = 0 then xt else c - 1); cr = (if c + 1 = w then 0 else c + 1);
          ru = (if r = 0 then yt else r - 1); rd = (if r + 1 = h then 0 else r + 1)
      in [r * w + cl, r * w + cr,
          ru * w + cl, ru * w + c, ru * w + cr,
          rd * w + cl, rd * w + c, rd * w + cr])"

definition live_count :: "nat \<Rightarrow> nat \<Rightarrow> nat \<Rightarrow> nat \<Rightarrow> nat list \<Rightarrow> nat \<Rightarrow> nat \<Rightarrow> nat" where
  "live_count w h xt yt L c r = length (filter (\<lambda>s. s \<in> set L) (neighbor_slots w h xt yt c r))"

section \<open>Properties\<close>

declare x_loop.simps [simp del] y_loop.simps [simp del]

subsection \<open>The index mapping\<close>

lemma floor_modulo_less:
  assumes "0 < m"
  shows "\<exists>r. floor_modulo a m = Some r \<and> r < m"
  using assms by (simp add: floor_modulo_def word_mod_less_divisor)

lemma unat_floor_modulo:
  assumes "0 < m" "unat m \<le> 2 ^ 63"
  shows "\<exists>r. floor_modulo a m = Some r \<and> unat r = unat a mod unat m"
proof -
  have pos: "0 < unat m" using assms(1) by (simp add: word_less_nat_alt)
  have "unat (a mod m) = unat a mod unat m" by (rule unat_mod)
  moreover have "unat a mod unat m < unat m" using pos by simp
  ultimately have "unat (a mod m) + unat m < 2 ^ LENGTH(64)" using assms(2) by simp
  then have "unat (a mod m + m) = unat (a mod m) + unat m"
    by (simp only: unat_add_lem)
  then have "unat ((a mod m + m) mod m) = (unat a mod unat m + unat m) mod unat m"
    by (simp add: unat_mod)
  then show ?thesis using assms(1) by (simp add: floor_modulo_def)
qed

lemma unat_row_col_le:
  fixes row col W :: "64 word"
  shows "unat (row * W + col) \<le> unat row * unat W + unat col"
proof -
  have "unat (row * W + col) = (unat (row * W) + unat col) mod 2 ^ LENGTH(64)"
    by (rule unat_word_ariths(1))
  also have "\<dots> \<le> unat (row * W) + unat col"
    by (rule mod_less_eq_dividend)
  also have "unat (row * W) = (unat row * unat W) mod 2 ^ LENGTH(64)"
    by (rule unat_word_ariths(2))
  also have "\<dots> \<le> unat row * unat W"
    by (rule mod_less_eq_dividend)
  finally show ?thesis by simp
qed

lemma row_col_less:
  fixes r c w h :: nat
  assumes "r < h" "c < w"
  shows "r * w + c < w * h"
proof -
  have "r * w + c < r * w + w" using assms by simp
  also have "\<dots> = Suc r * w" by simp
  also have "\<dots> \<le> h * w" using assms(1) by (intro mult_le_mono1) simp
  finally show ?thesis by (simp add: mult.commute)
qed

lemma index_less:
  assumes "0 < W" "0 < H"
  shows "\<exists>i. index W H p = Some i \<and> unat i < unat W * unat H"
proof -
  obtain row where row: "floor_modulo (y p) H = Some row" "row < H"
    using floor_modulo_less [OF assms(2)] by blast
  obtain col where col: "floor_modulo (x p) W = Some col" "col < W"
    using floor_modulo_less [OF assms(1)] by blast
  have "unat row < unat H" "unat col < unat W"
    using row(2) col(2) by (simp_all add: word_less_nat_alt)
  then have "unat row * unat W + unat col < unat W * unat H"
    by (rule row_col_less)
  with unat_row_col_le [of row W col] have "unat (row * W + col) < unat W * unat H"
    by simp
  then show ?thesis
    by (simp add: index_def row(1) col(1))
qed

lemma get_in_range:
  assumes "0 < W" "0 < H" "length d = unat W * unat H"
  shows "\<exists>i. index W H p = Some i \<and> unat i < length d \<and> get W H d p = Some (d ! unat i)"
  using index_less [OF assms(1,2), of p] assms(3) by (auto simp: get_def)

lemma set_cell_in_range:
  assumes "0 < W" "0 < H" "length d = unat W * unat H"
  shows "\<exists>i. index W H p = Some i \<and> unat i < length d \<and> set_cell W H d p = Some (d[unat i := True])"
  using index_less [OF assms(1,2), of p] assms(3) by (auto simp: set_cell_def)

subsection \<open>Seeding\<close>

lemma set_cell_length: "set_cell W H d p = Some d' \<Longrightarrow> length d' = length d"
  by (auto simp: set_cell_def split: bind_splits if_splits)

lemma set_cell_keeps_alive:
  assumes "set_cell W H d p = Some d'" "get W H d c = Some True"
  shows "get W H d' c = Some True"
proof -
  from assms(1) obtain i where i: "index W H p = Some i" "unat i < length d"
    and d': "d' = d[unat i := True]"
    by (auto simp: set_cell_def split: bind_splits if_splits)
  from assms(2) obtain j where j: "index W H c = Some j" "unat j < length d" "d ! unat j"
    by (auto simp: get_def split: bind_splits if_splits)
  show ?thesis
    using i j by (simp add: get_def d' nth_list_update)
qed

lemma add_glider_keeps_alive:
  assumes "add_glider W H d p = Some d'" "get W H d c = Some True"
  shows "get W H d' c = Some True"
proof -
  from assms(1) obtain d1 d2 d3 d4 where steps:
    "set_cell W H d p = Some d1"
    "set_cell W H d1 (point_add p \<lparr>x = 1, y = 1\<rparr>) = Some d2"
    "set_cell W H d2 (point_add p \<lparr>x = 2, y = 1\<rparr>) = Some d3"
    "set_cell W H d3 (point_add p \<lparr>x = 0, y = 2\<rparr>) = Some d4"
    "set_cell W H d4 (point_add p \<lparr>x = 1, y = 2\<rparr>) = Some d'"
    by (auto simp: add_glider_def split: bind_splits)
  have "get W H d1 c = Some True"
    using steps(1) assms(2) by (rule set_cell_keeps_alive)
  then have "get W H d2 c = Some True"
    using steps(2) by (rule set_cell_keeps_alive [rotated])
  then have "get W H d3 c = Some True"
    using steps(3) by (rule set_cell_keeps_alive [rotated])
  then have "get W H d4 c = Some True"
    using steps(4) by (rule set_cell_keeps_alive [rotated])
  then show ?thesis
    using steps(5) by (rule set_cell_keeps_alive [rotated])
qed

lemma set_cell_succeeds:
  assumes "0 < W" "0 < H" "length d = unat W * unat H"
  shows "\<exists>d'. set_cell W H d p = Some d' \<and> length d' = unat W * unat H"
  using set_cell_in_range [OF assms, of p] assms(3) by auto

lemma add_glider_succeeds:
  assumes "0 < W" "0 < H" "length d = unat W * unat H"
  shows "\<exists>d'. add_glider W H d p = Some d' \<and> length d' = unat W * unat H"
proof -
  obtain d1 where d1: "set_cell W H d p = Some d1" "length d1 = unat W * unat H"
    using set_cell_succeeds [OF assms] by blast
  obtain d2 where d2: "set_cell W H d1 (point_add p \<lparr>x = 1, y = 1\<rparr>) = Some d2"
    "length d2 = unat W * unat H"
    using set_cell_succeeds [OF assms(1,2) d1(2)] by blast
  obtain d3 where d3: "set_cell W H d2 (point_add p \<lparr>x = 2, y = 1\<rparr>) = Some d3"
    "length d3 = unat W * unat H"
    using set_cell_succeeds [OF assms(1,2) d2(2)] by blast
  obtain d4 where d4: "set_cell W H d3 (point_add p \<lparr>x = 0, y = 2\<rparr>) = Some d4"
    "length d4 = unat W * unat H"
    using set_cell_succeeds [OF assms(1,2) d3(2)] by blast
  obtain d5 where d5: "set_cell W H d4 (point_add p \<lparr>x = 1, y = 2\<rparr>) = Some d5"
    "length d5 = unat W * unat H"
    using set_cell_succeeds [OF assms(1,2) d4(2)] by blast
  show ?thesis
    by (simp add: add_glider_def d1 d2 d3 d4 d5)
qed


subsection \<open>The loops of \<open>std::transform\<close> and \<open>make_indexes\<close>\<close>

lemma unat_succ_below:
  fixes v b :: "64 word"
  assumes "v < b"
  shows "unat (v + 1) = Suc (unat v)"
proof -
  from assms have "unat v < unat b"
    by (simp add: word_less_nat_alt)
  moreover have "unat b < 2 ^ 64"
    using unsigned_less [of b, where ?'a = nat] by simp
  ultimately have "unat v + unat (1 :: 64 word) < 2 ^ LENGTH(64)"
    by simp
  then have "unat (v + 1) = unat v + unat (1 :: 64 word)"
    by (simp only: unat_add_lem)
  then show ?thesis by simp
qed

lemma transform_writes:
  "map op xs = map Some vs \<Longrightarrow> k + length xs \<le> length out \<Longrightarrow>
   transform op xs out k = Some (take k out @ vs @ drop (k + length xs) out)"
proof (induction xs arbitrary: vs out k)
  case Nil
  then show ?case by simp
next
  case (Cons a rest)
  from Cons.prems(1) obtain v vs' where vs: "vs = v # vs'" and a: "op a = Some v"
    and rest: "map op rest = map Some vs'"
    by (cases vs) auto
  from Cons.prems(2) have k: "k < length out" by simp
  have "transform op rest (out[k := v]) (Suc k) =
      Some (take (Suc k) (out[k := v]) @ vs' @ drop (Suc k + length rest) (out[k := v]))"
    using rest Cons.prems(2) by (intro Cons.IH) simp_all
  moreover have "take (Suc k) (out[k := v]) = take k out @ [v]"
    using k by (simp add: take_Suc_conv_app_nth)
  moreover have "drop (Suc k + length rest) (out[k := v]) = drop (k + length (a # rest)) out"
    by simp
  ultimately show ?case
    using a k by (simp add: vs)
qed

lemma x_loop_row:
  "output_index + (unat W - unat xv) \<le> length result \<Longrightarrow>
   x_loop W yv xv result output_index =
     Some (take output_index result
             @ map (\<lambda>i. \<lparr>x = of_nat i, y = yv\<rparr>) [unat xv..<unat W]
             @ drop (output_index + (unat W - unat xv)) result,
           output_index + (unat W - unat xv))"
proof (induction W yv xv result output_index rule: x_loop.induct)
  case (1 W yv xv result output_index)
  show ?case
  proof (cases "xv < W")
    case False
    then have "unat W \<le> unat xv"
      by (simp add: word_less_nat_alt)
    with False show ?thesis
      by (simp add: x_loop.simps [of W yv xv])
  next
    case True
    then have lt: "unat xv < unat W"
      by (simp add: word_less_nat_alt)
    have suc: "unat (xv + 1) = Suc (unat xv)"
      using True by (rule unat_succ_below)
    from lt "1.prems" have oi: "output_index < length result"
      by simp
    let ?r = "result[output_index := \<lparr>x = xv, y = yv\<rparr>]"
    have next_index:
      "output_index + 1 + (unat W - unat (xv + 1)) = output_index + (unat W - unat xv)"
      using lt unfolding suc by arith
    have fits: "output_index + 1 + (unat W - unat (xv + 1)) \<le> length ?r"
      using "1.prems" unfolding next_index by simp
    have "x_loop W yv xv result output_index = x_loop W yv (xv + 1) ?r (output_index + 1)"
      using True oi by (simp add: x_loop.simps [of W yv xv])
    also have "\<dots> =
      Some (take (output_index + 1) ?r
             @ map (\<lambda>i. \<lparr>x = of_nat i, y = yv\<rparr>) [unat (xv + 1)..<unat W]
             @ drop (output_index + 1 + (unat W - unat (xv + 1))) ?r,
           output_index + 1 + (unat W - unat (xv + 1)))"
      using True oi fits by (rule "1.IH")
    also have "output_index + 1 + (unat W - unat (xv + 1)) = output_index + (unat W - unat xv)"
      by (rule next_index)
    also have "take (output_index + 1) ?r = take output_index result @ [\<lparr>x = xv, y = yv\<rparr>]"
      using oi by (simp add: take_Suc_conv_app_nth)
    also have "drop (output_index + (unat W - unat xv)) ?r
        = drop (output_index + (unat W - unat xv)) result"
      using lt by (intro drop_update_cancel) simp
    also have "(take output_index result @ [\<lparr>x = xv, y = yv\<rparr>])
          @ map (\<lambda>i. \<lparr>x = of_nat i, y = yv\<rparr>) [unat (xv + 1)..<unat W]
          @ drop (output_index + (unat W - unat xv)) result
        = take output_index result
          @ map (\<lambda>i. \<lparr>x = of_nat i, y = yv\<rparr>) [unat xv..<unat W]
          @ drop (output_index + (unat W - unat xv)) result"
      using lt by (simp add: suc upt_conv_Cons)
    finally show ?thesis .
  qed
qed


lemma take_drop_frame:
  assumes "length mid = n" "k + n \<le> length xs"
  shows "length (take k xs @ mid @ drop (k + n) xs) = length xs"
    and "take (k + n) (take k xs @ mid @ drop (k + n) xs) = take k xs @ mid"
    and "drop (k + n + m) (take k xs @ mid @ drop (k + n) xs) = drop (k + n + m) xs"
  using assms by (simp_all add: add.commute)


lemma y_loop_rows:
  "output_index + (unat H - unat yv) * unat W \<le> length result \<Longrightarrow>
   y_loop W H yv result output_index =
     Some (take output_index result
             @ concat (map (\<lambda>j. map (\<lambda>i. \<lparr>x = of_nat i, y = of_nat j\<rparr>) [0..<unat W])
                 [unat yv..<unat H])
             @ drop (output_index + (unat H - unat yv) * unat W) result,
           output_index + (unat H - unat yv) * unat W)"
proof (induction W H yv result output_index rule: y_loop.induct)
  case (1 W H yv result output_index)
  show ?case
  proof (cases "yv < H")
    case False
    then have "unat H \<le> unat yv"
      by (simp add: word_less_nat_alt)
    with False show ?thesis
      by (simp add: y_loop.simps [of W H yv])
  next
    case True
    then have lt: "unat yv < unat H"
      by (simp add: word_less_nat_alt)
    have suc: "unat (yv + 1) = Suc (unat yv)"
      using True by (rule unat_succ_below)
    let ?row = "map (\<lambda>i. \<lparr>x = of_nat i, y = yv\<rparr>) [0..<unat W]"
    let ?rest = "(unat H - unat (yv + 1)) * unat W"
    have split: "(unat H - unat yv) * unat W = unat W + ?rest"
    proof -
      have "unat H - unat yv = Suc (unat H - unat (yv + 1))"
        using lt unfolding suc by arith
      then show ?thesis by simp
    qed
    have room: "output_index + unat W \<le> length result"
      using "1.prems" unfolding split by simp
    let ?r = "take output_index result @ ?row @ drop (output_index + unat W) result"
    have row: "x_loop W yv 0 result output_index = Some (?r, output_index + unat W)"
      using x_loop_row [of output_index W 0 result yv] room by simp
    have len: "length ?row = unat W"
      by simp
    have frame: "length ?r = length result"
      "take (output_index + unat W) ?r = take output_index result @ ?row"
      "drop (output_index + unat W + ?rest) ?r = drop (output_index + unat W + ?rest) result"
      using take_drop_frame [OF len room] by blast+
    have fits: "output_index + unat W + ?rest \<le> length ?r"
      using "1.prems" unfolding split frame(1) by simp
    have "y_loop W H yv result output_index = y_loop W H (yv + 1) ?r (output_index + unat W)"
      using True row by (simp add: y_loop.simps [of W H yv])
    also have "\<dots> =
      Some (take (output_index + unat W) ?r
             @ concat (map (\<lambda>j. map (\<lambda>i. \<lparr>x = of_nat i, y = of_nat j\<rparr>) [0..<unat W])
                 [unat (yv + 1)..<unat H])
             @ drop (output_index + unat W + ?rest) ?r,
           output_index + unat W + ?rest)"
      using True row refl fits by (rule "1.IH")
    also have "take (output_index + unat W) ?r = take output_index result @ ?row"
      by (rule frame(2))
    also have "drop (output_index + unat W + ?rest) ?r
        = drop (output_index + (unat H - unat yv) * unat W) result"
      unfolding frame(3) split by (simp add: add.assoc)
    also have "output_index + unat W + ?rest = output_index + (unat H - unat yv) * unat W"
      unfolding split by simp
    also have "(take output_index result @ ?row)
          @ concat (map (\<lambda>j. map (\<lambda>i. \<lparr>x = of_nat i, y = of_nat j\<rparr>) [0..<unat W])
              [unat (yv + 1)..<unat H])
          @ drop (output_index + (unat H - unat yv) * unat W) result
        = take output_index result
          @ concat (map (\<lambda>j. map (\<lambda>i. \<lparr>x = of_nat i, y = of_nat j\<rparr>) [0..<unat W])
              [unat yv..<unat H])
          @ drop (output_index + (unat H - unat yv) * unat W) result"
      using lt by (simp add: suc upt_conv_Cons)
    finally show ?thesis .
  qed
qed

lemma length_row_major: "length (row_major W H) = unat W * unat H"
  by (simp add: row_major_def length_concat comp_def sum_list_triv mult.commute)

lemma make_indexes_row_major:
  assumes "unat W * unat H < 2 ^ 64"
  shows "make_indexes W H = Some (row_major W H)"
proof -
  have size: "unat (W * H) = unat W * unat H"
    using assms unat_mult_lem [of W H] by simp
  let ?init = "replicate (unat (W * H)) \<lparr>x = 0, y = 0\<rparr>"
  have "y_loop W H 0 ?init 0 =
      Some (take 0 ?init
              @ concat (map (\<lambda>j. map (\<lambda>i. \<lparr>x = of_nat i, y = of_nat j\<rparr>) [0..<unat W])
                  [unat (0 :: 64 word)..<unat H])
              @ drop (0 + (unat H - unat (0 :: 64 word)) * unat W) ?init,
            0 + (unat H - unat (0 :: 64 word)) * unat W)"
    by (rule y_loop_rows) (simp add: size mult.commute [of "unat H" "unat W"])
  then show ?thesis
    by (simp add: make_indexes_def row_major_def size mult.commute [of "unat H" "unat W"])
qed


subsection \<open>One step on a board of the right size\<close>

lemma count_loop_total:
  assumes "0 < W" "0 < H" "length d = unat W * unat H"
  shows "\<exists>n. count_loop W H d p ns c = Some n \<and> c \<le> n \<and> n \<le> c + length ns"
proof (induction ns arbitrary: c)
  case Nil
  show ?case by simp
next
  case (Cons neighbor rest)
  obtain alive where alive: "get W H d (point_add p neighbor) = Some alive"
    using get_in_range [OF assms] by blast
  obtain n where "count_loop W H d p rest (if alive then c + 1 else c) = Some n"
    "(if alive then c + 1 else c) \<le> n" "n \<le> (if alive then c + 1 else c) + length rest"
    using Cons.IH by blast
  then show ?case
    by (auto simp: alive split: if_splits)
qed

lemma count_neighbors_total:
  assumes "0 < W" "0 < H" "length d = unat W * unat H"
  shows "\<exists>n. count_neighbors W H d p = Some n \<and> n \<le> 8"
  using count_loop_total [OF assms, of p neighbors 0]
  by (auto simp: count_neighbors_def neighbors_def)

lemma rules_total:
  assumes "0 < W" "0 < H" "length d = unat W * unat H"
  shows "\<exists>a n. get W H d p = Some a \<and> count_neighbors W H d p = Some n \<and> n \<le> 8
           \<and> rules W H d p = Some (rules_branches a n)"
proof -
  obtain a where a: "get W H d p = Some a"
    using get_in_range [OF assms] by blast
  obtain n where n: "count_neighbors W H d p = Some n" "n \<le> 8"
    using count_neighbors_total [OF assms] by blast
  show ?thesis
    by (simp add: rules_def a n)
qed

lemma iterate_board_total:
  assumes "0 < W" "0 < H" "length input = unat W * unat H"
    and "length output = length indices"
  shows "iterate_board W H input output indices
           = Some (map (\<lambda>p. the (rules W H input p)) indices)"
proof -
  have "map (rules W H input) indices = map Some (map (\<lambda>p. the (rules W H input p)) indices)"
  proof (simp, intro ballI)
    fix p
    obtain r where "rules W H input p = Some r"
      using rules_total [OF assms(1-3)] by blast
    then show "rules W H input p = Some (the (rules W H input p))" by simp
  qed
  then have "transform (rules W H input) indices output 0
      = Some (take 0 output @ map (\<lambda>p. the (rules W H input p)) indices
                @ drop (0 + length indices) output)"
    by (rule transform_writes) (simp add: assms(4))
  then show ?thesis
    by (simp add: iterate_board_def assms(4))
qed

subsection \<open>The all-dead board\<close>

lemma get_dead:
  assumes "0 < W" "0 < H" "n = unat W * unat H"
  shows "get W H (replicate n False) p = Some False"
proof -
  obtain i where "index W H p = Some i" "unat i < n"
    using index_less [OF assms(1,2), of p] assms(3) by blast
  then show ?thesis by (simp add: get_def)
qed

lemma count_loop_dead:
  assumes "0 < W" "0 < H" "n = unat W * unat H"
  shows "count_loop W H (replicate n False) p ns c = Some c"
  by (induction ns) (simp_all add: get_dead [OF assms])

lemma rules_dead:
  assumes "0 < W" "0 < H" "n = unat W * unat H"
  shows "rules W H (replicate n False) p = Some False"
  by (simp add: rules_def count_neighbors_def count_loop_dead [OF assms] get_dead [OF assms]
      rules_branches_def)

lemma iterate_board_dead:
  assumes "0 < W" "0 < H" "n = unat W * unat H" "length output = n" "length indices = n"
  shows "iterate_board W H (replicate n False) output indices = Some (replicate n False)"
proof -
  have "iterate_board W H (replicate n False) output indices
      = Some (map (\<lambda>p. the (rules W H (replicate n False) p)) indices)"
    using assms by (intro iterate_board_total) simp_all
  also have "map (\<lambda>p. the (rules W H (replicate n False) p)) indices = replicate n False"
    by (simp add: rules_dead [OF assms(1-3)] map_replicate_const assms(5))
  finally show ?thesis .
qed

lemma run_loop_dead:
  assumes "0 < W" "0 < H" "n = unat W * unat H" "length indices = n"
  shows "length board2 = n \<Longrightarrow>
    \<exists>other. run_loop W H indices k (replicate n False) board2 = Some (replicate n False, other)"
proof (induction k arbitrary: board2)
  case 0
  show ?case by simp
next
  case (Suc k)
  have "iterate_board W H (replicate n False) board2 indices = Some (replicate n False)"
    using assms(1-3) Suc.prems assms(4) by (rule iterate_board_dead)
  moreover have "\<exists>other. run_loop W H indices k (replicate n False) (replicate n False)
      = Some (replicate n False, other)"
    by (rule Suc.IH) simp
  ultimately show ?case by simp
qed

lemma simulate_dead:
  assumes "0 < W" "0 < H" "unat W * unat H < 2 ^ 64"
  shows "simulate W H (new_board W H) k = Some (new_board W H)"
proof -
  have size: "unat (W * H) = unat W * unat H"
    using assms(3) unat_mult_lem [of W H] by simp
  have idx: "make_indexes W H = Some (row_major W H)"
    using assms(3) by (rule make_indexes_row_major)
  obtain other where "run_loop W H (row_major W H) k (replicate (unat (W * H)) False)
      (replicate (unat (W * H)) False) = Some (replicate (unat (W * H)) False, other)"
    using run_loop_dead [OF assms(1,2) size, of "row_major W H" "replicate (unat (W * H)) False" k]
    by (auto simp: length_row_major size)
  then show ?thesis
    by (simp add: simulate_def idx new_board_def)
qed


subsection \<open>Wrap, rule, seeding and step\<close>

text \<open>
  C1. The wrap is meant to be floor-modulo: \<open>wrap(k, m) = wrap(k + m, m)\<close>, the result
  in \<open>[0, m)\<close>, and \<open>-1\<close> wrapping to \<open>m - 1\<close>. With the \<open>std::size_t\<close>
  modulus of the code the coordinate \<open>-1\<close> is first converted to \<open>2^64 - 1\<close>:
  for \<open>m = 3\<close> it wraps to 0, not to 2, and differs from the wrap of \<open>-1 + 3\<close>;
  for \<open>m = 20\<close> it wraps to 15, not to 19.
\<close>

theorem floor_modulo_minus_one:
  "floor_modulo (- 1) 3 = Some 0 \<and> floor_modulo (- 1 + 3) 3 = Some 2
   \<and> floor_modulo (- 1) 20 = Some 15"
  by (simp add: floor_modulo_def)

text \<open>
  C2. The 3 by 3 board whose only live cell is \<open>(0,0)\<close>. The claim expects the origin
  to count 0 live neighbours, every other cell 1, and the board to be all dead after one
  step. In the code the offsets \<open>(-1,0)\<close>, \<open>(-1,-1)\<close> and \<open>(0,-1)\<close> wrap back
  onto the origin, which therefore counts 3 neighbours, cell \<open>(1,0)\<close> counts 2, and the
  origin survives the step.
\<close>

theorem single_cell_3x3:
  "set_cell 3 3 (new_board 3 3) \<lparr>x = 0, y = 0\<rparr>
     = Some [True, False, False, False, False, False, False, False, False]
   \<and> count_neighbors 3 3 [True, False, False, False, False, False, False, False, False]
         \<lparr>x = 0, y = 0\<rparr> = Some 3
   \<and> count_neighbors 3 3 [True, False, False, False, False, False, False, False, False]
         \<lparr>x = 1, y = 0\<rparr> = Some 2
   \<and> simulate 3 3 [True, False, False, False, False, False, False, False, False] 1
     = Some [True, False, False, False, False, False, False, False, False]"
  by code_simp

text \<open>
  C3. The transition rule is the Game-of-Life table: the result is true exactly when the
  cell is alive with 2 or 3 live neighbours, or dead with exactly 3; and \<open>rules\<close>
  applies that table to the liveness and the neighbour count it reads from the input board.
\<close>

theorem rules_table:
  "(rules_branches a n \<longleftrightarrow> (a \<and> (n = 2 \<or> n = 3)) \<or> (\<not> a \<and> n = 3))
   \<and> rules W H d p = do {
         k \<leftarrow> count_neighbors W H d p;
         b \<leftarrow> get W H d p;
         Some ((b \<and> (k = 2 \<or> k = 3)) \<or> (\<not> b \<and> k = 3))
       }"
proof -
  have table: "rules_branches b k \<longleftrightarrow> (b \<and> (k = 2 \<or> k = 3)) \<or> (\<not> b \<and> k = 3)" for b k
    by (auto simp: rules_branches_def)
  show ?thesis
    unfolding rules_def by (simp add: table)
qed

theorem rules_table_witness:
  "rules_branches True 2 \<and> rules_branches True 3 \<and> \<not> rules_branches True 1
   \<and> \<not> rules_branches True 4 \<and> rules_branches False 3 \<and> \<not> rules_branches False 2"
  using rules_table [of True 2] rules_table [of True 3] rules_table [of True 1]
    rules_table [of True 4] rules_table [of False 3] rules_table [of False 2]
  by simp

text \<open>
  C6. On a board of positive width and height every coordinate, negative or not, has a
  linear index, and the index is below \<open>width * height\<close>; so \<open>operator[]\<close> on a board
  that holds \<open>Width * Height\<close> cells returns the cell at that index and never fails.
\<close>

theorem index_in_range:
  assumes "0 < W" and "0 < H"
  shows "\<exists>i. index W H p = Some i \<and> unat i < unat W * unat H
           \<and> (unat W * unat H < 2 ^ 64 \<longrightarrow> length d = unat (W * H)
                \<longrightarrow> get W H d p = Some (d ! unat i))"
proof -
  obtain i where i: "index W H p = Some i" "unat i < unat W * unat H"
    using index_less [OF assms] by blast
  have "get W H d p = Some (d ! unat i)"
    if "unat W * unat H < 2 ^ 64" "length d = unat (W * H)"
  proof -
    have "unat (W * H) = unat W * unat H"
      using that(1) unat_mult_lem [of W H] by simp
    with i that(2) show ?thesis by (simp add: get_def)
  qed
  with i show ?thesis by blast
qed

theorem index_in_range_witness:
  "(0 :: 64 word) < 3 \<and> (0 :: 64 word) < 4
   \<and> (\<exists>i. index 3 4 \<lparr>x = - 1, y = - 7\<rparr> = Some i \<and> unat i < unat (3 :: 64 word) * unat (4 :: 64 word)
        \<and> get 3 4 (new_board 3 4) \<lparr>x = - 1, y = - 7\<rparr> = Some (new_board 3 4 ! unat i))"
proof -
  have w: "(0 :: 64 word) < 3" and h: "(0 :: 64 word) < 4"
    by simp_all
  have "unat (3 :: 64 word) * unat (4 :: 64 word) < 2 ^ 64"
    and "length (new_board 3 4) = unat (3 * 4 :: 64 word)"
    by (simp_all add: new_board_def)
  with index_in_range [OF w h, of "\<lparr>x = - 1, y = - 7\<rparr>" "new_board 3 4"] w h
  show ?thesis by blast
qed

text \<open>
  C9. With iteration count 0 the loop leaves both boards as they are, and the simulation
  returns the initial board, cell by cell.
\<close>

theorem zero_iterations:
  "run_loop W H indices 0 board1 board2 = Some (board1, board2)
   \<and> (unat W * unat H < 2 ^ 64 \<longrightarrow> simulate W H board1 0 = Some board1)"
  by (simp add: simulate_def make_indexes_row_major)

theorem zero_iterations_witness:
  "unat (3 :: 64 word) * unat (3 :: 64 word) < 2 ^ 64
   \<and> simulate 3 3 [True, False, False, False, True, False, False, False, True] 0
       = Some [True, False, False, False, True, False, False, False, True]"
  using zero_iterations [of 3 3 "[]" "[True, False, False, False, True, False, False, False, True]" "[]"]
  by simp

text \<open>
  C10. Seeding is monotone: a cell that is alive before \<open>set(p)\<close> is alive after it, so
  \<open>add_glider\<close> (five calls of \<open>set\<close>) never turns a live cell dead, and neither does
  a second, possibly overlapping, glider.
\<close>

theorem seeding_monotone:
  "(set_cell W H d p = Some d1 \<and> get W H d c = Some True \<longrightarrow> get W H d1 c = Some True)
   \<and> (add_glider W H d p = Some d2 \<and> get W H d c = Some True \<longrightarrow> get W H d2 c = Some True)
   \<and> (add_glider W H d p = Some d2 \<and> add_glider W H d2 q = Some d3 \<and> get W H d c = Some True
        \<longrightarrow> get W H d3 c = Some True)"
  by (auto intro: set_cell_keeps_alive add_glider_keeps_alive)

theorem seeding_monotone_witness:
  "set_cell 4 4 (new_board 4 4) \<lparr>x = 1, y = 2\<rparr>
       = Some [False, False, False, False, False, False, False, False,
               False, True, False, False, False, False, False, False]
   \<and> add_glider 4 4 [False, False, False, False, False, False, False, False,
                     False, True, False, False, False, False, False, False] \<lparr>x = 3, y = 3\<rparr>
       = Some [True, True, False, False, True, False, False, True,
               False, True, False, False, False, False, False, True]
   \<and> add_glider 4 4 [True, True, False, False, True, False, False, True,
                     False, True, False, False, False, False, False, True] \<lparr>x = 0, y = 0\<rparr>
       = Some [True, True, False, False, True, True, True, True,
               True, True, False, False, False, False, False, True]
   \<and> get 4 4 [True, True, False, False, True, True, True, True,
              True, True, False, False, False, False, False, True] \<lparr>x = 1, y = 2\<rparr> = Some True"
proof -
  let ?empty = "new_board 4 4"
  let ?first = "[False, False, False, False, False, False, False, False,
             False, True, False, False, False, False, False, False]"
  let ?second = "[True, True, False, False, True, False, False, True,
              False, True, False, False, False, False, False, True]"
  let ?third = "[True, True, False, False, True, True, True, True,
              True, True, False, False, False, False, False, True]"
  have s: "set_cell 4 4 ?empty \<lparr>x = 1, y = 2\<rparr> = Some ?first"
    by code_simp
  have g2: "add_glider 4 4 ?first \<lparr>x = 3, y = 3\<rparr> = Some ?second"
    by code_simp
  have g3: "add_glider 4 4 ?second \<lparr>x = 0, y = 0\<rparr> = Some ?third"
    by code_simp
  have alive: "get 4 4 ?first \<lparr>x = 1, y = 2\<rparr> = Some True"
    by code_simp
  have "get 4 4 ?third \<lparr>x = 1, y = 2\<rparr> = Some True"
    using seeding_monotone [of 4 4 ?first "\<lparr>x = 3, y = 3\<rparr>" ?second "\<lparr>x = 1, y = 2\<rparr>" ?second
        "\<lparr>x = 0, y = 0\<rparr>" ?third] g2 g3 alive
    by blast
  with s g2 g3 show ?thesis by blast
qed

text \<open>
  C7. For every board of positive width and height, and every iteration count, the
  simulation started from a board in which every cell is dead ends with every cell dead.
\<close>

theorem dead_stays_dead:
  assumes "0 < W" and "0 < H" and "unat W * unat H < 2 ^ 64"
    and "length d = unat (W * H)" and "\<forall>c \<in> set d. \<not> c"
  shows "simulate W H d k = Some d"
proof -
  have "d = replicate (length d) False"
    using assms(5) by (intro replicate_eqI) auto
  then have "d = new_board W H"
    by (simp add: new_board_def assms(4))
  then show ?thesis
    using simulate_dead [OF assms(1-3)] by simp
qed

theorem dead_stays_dead_witness:
  "simulate 5 3 (replicate 15 False) 7 = Some (replicate 15 False)"
proof -
  have "(0 :: 64 word) < 5" "(0 :: 64 word) < 3"
    "unat (5 :: 64 word) * unat (3 :: 64 word) < 2 ^ 64"
    "length (replicate 15 False) = unat (5 * 3 :: 64 word)"
    "\<forall>c \<in> set (replicate 15 False). \<not> c"
    by simp_all
  then show ?thesis by (rule dead_stays_dead)
qed

text \<open>
  C4. One step, for two boards of the same dimensions and the index cache of those
  dimensions: slot \<open>i\<close> of the output receives the rule applied to the input's liveness and
  neighbour count at \<open>cache[i]\<close>; every slot is written, and the result does not depend
  on what the output board held before.
\<close>

theorem iterate_board_pointwise:
  assumes "0 < W" and "0 < H" and "unat W * unat H < 2 ^ 64"
    and "length input = unat (W * H)" and "length output = unat (W * H)"
    and "make_indexes W H = Some indices"
  shows "\<exists>nxt. iterate_board W H input output indices = Some nxt
           \<and> length nxt = length output
           \<and> (\<forall>i < length nxt. \<exists>a n.
                 get W H input (indices ! i) = Some a
                 \<and> count_neighbors W H input (indices ! i) = Some n
                 \<and> nxt ! i = rules_branches a n)
           \<and> (\<forall>output'. length output' = length output
                 \<longrightarrow> iterate_board W H input output' indices = Some nxt)"
proof -
  have size: "unat (W * H) = unat W * unat H"
    using assms(3) unat_mult_lem [of W H] by simp
  have "indices = row_major W H"
    using assms(6) make_indexes_row_major [OF assms(3)] by simp
  then have len: "length indices = unat W * unat H"
    by (simp add: length_row_major)
  have input: "length input = unat W * unat H"
    using assms(4) size by simp
  let ?nxt = "map (\<lambda>p. the (rules W H input p)) indices"
  have step: "iterate_board W H input out indices = Some ?nxt"
    if "length out = length output" for out
    using assms(1,2) input by (rule iterate_board_total) (simp add: that assms(5) size len)
  have cell: "\<exists>a n. get W H input (indices ! i) = Some a
      \<and> count_neighbors W H input (indices ! i) = Some n \<and> ?nxt ! i = rules_branches a n"
    if "i < length ?nxt" for i
  proof -
    obtain a n where "get W H input (indices ! i) = Some a"
      "count_neighbors W H input (indices ! i) = Some n"
      "rules W H input (indices ! i) = Some (rules_branches a n)"
      using rules_total [OF assms(1,2) input] by blast
    with that show ?thesis by simp
  qed
  have "length ?nxt = length output"
    by (simp add: len assms(5) size)
  with step cell show ?thesis by blast
qed

theorem iterate_board_pointwise_witness:
  "\<exists>nxt. iterate_board 2 2 [True, True, True, False] [True, True, True, True]
             [\<lparr>x = 0, y = 0\<rparr>, \<lparr>x = 1, y = 0\<rparr>, \<lparr>x = 0, y = 1\<rparr>, \<lparr>x = 1, y = 1\<rparr>] = Some nxt
     \<and> length nxt = length [True, True, True, True]
     \<and> (\<forall>i < length nxt. \<exists>a n.
           get 2 2 [True, True, True, False]
             ([\<lparr>x = 0, y = 0\<rparr>, \<lparr>x = 1, y = 0\<rparr>, \<lparr>x = 0, y = 1\<rparr>, \<lparr>x = 1, y = 1\<rparr>] ! i) = Some a
           \<and> count_neighbors 2 2 [True, True, True, False]
             ([\<lparr>x = 0, y = 0\<rparr>, \<lparr>x = 1, y = 0\<rparr>, \<lparr>x = 0, y = 1\<rparr>, \<lparr>x = 1, y = 1\<rparr>] ! i) = Some n
           \<and> nxt ! i = rules_branches a n)
     \<and> (\<forall>output'. length output' = length [True, True, True, True]
           \<longrightarrow> iterate_board 2 2 [True, True, True, False] output'
                 [\<lparr>x = 0, y = 0\<rparr>, \<lparr>x = 1, y = 0\<rparr>, \<lparr>x = 0, y = 1\<rparr>, \<lparr>x = 1, y = 1\<rparr>] = Some nxt)"
proof -
  have "(0 :: 64 word) < 2" "(0 :: 64 word) < 2"
    "unat (2 :: 64 word) * unat (2 :: 64 word) < 2 ^ 64"
    "length [True, True, True, False] = unat (2 * 2 :: 64 word)"
    "length [True, True, True, True] = unat (2 * 2 :: 64 word)"
    by simp_all
  moreover have "make_indexes 2 2
      = Some [\<lparr>x = 0, y = 0\<rparr>, \<lparr>x = 1, y = 0\<rparr>, \<lparr>x = 0, y = 1\<rparr>, \<lparr>x = 1, y = 1\<rparr>]"
    by code_simp
  ultimately show ?thesis by (rule iterate_board_pointwise)
qed

subsection \<open>The order of the index cache\<close>

lemma nth_concat_rows:
  fixes f :: "nat \<Rightarrow> nat \<Rightarrow> 'a"
  shows "i < w * h \<Longrightarrow>
    concat (map (\<lambda>j. map (\<lambda>i. f i j) [0..<w]) [0..<h]) ! i = f (i mod w) (i div w)"
proof (induction h)
  case 0
  then show ?case by simp
next
  case (Suc h)
  let ?rows = "concat (map (\<lambda>j. map (\<lambda>i. f i j) [0..<w]) [0..<h])"
  have len: "length ?rows = w * h"
    by (simp add: length_concat comp_def sum_list_triv mult.commute)
  show ?case
  proof (cases "i < w * h")
    case True
    with Suc.IH len show ?thesis by (simp add: nth_append)
  next
    case False
    define k where "k = i - w * h"
    have i: "i = k + h * w" and k: "k < w"
      using False Suc.prems by (simp_all add: k_def mult.commute)
    have "i div w = h" "i mod w = k"
      using k unfolding i by simp_all
    moreover have "(?rows @ map (\<lambda>i. f i h) [0..<w]) ! i = f k h"
      using k len False by (simp add: nth_append k_def)
    ultimately show ?thesis by simp
  qed
qed

lemma nth_row_major:
  assumes "i < unat W * unat H"
  shows "row_major W H ! i = \<lparr>x = of_nat (i mod unat W), y = of_nat (i div unat W)\<rparr>"
  unfolding row_major_def using assms by (rule nth_concat_rows)

lemma unat_of_nat_small:
  assumes "k < 2 ^ 64"
  shows "unat (of_nat k :: 64 word) = k"
  using assms by (simp add: unat_of_nat)

lemma index_nat:
  assumes "0 < W" "0 < H" "unat W \<le> 2 ^ 63" "unat H \<le> 2 ^ 63" "unat W * unat H < 2 ^ 64"
  shows "index W H p
    = Some (of_nat ((unat (y p) mod unat H) * unat W + unat (x p) mod unat W))"
    and "(unat (y p) mod unat H) * unat W + unat (x p) mod unat W < unat W * unat H"
proof -
  obtain row where row: "floor_modulo (y p) H = Some row" "unat row = unat (y p) mod unat H"
    using unat_floor_modulo [OF assms(2,4)] by blast
  obtain col where col: "floor_modulo (x p) W = Some col" "unat col = unat (x p) mod unat W"
    using unat_floor_modulo [OF assms(1,3)] by blast
  have pos: "0 < unat W" "0 < unat H"
    using assms(1,2) by (simp_all add: word_less_nat_alt)
  then have "unat row < unat H" "unat col < unat W"
    by (simp_all add: row(2) col(2))
  then have below: "unat row * unat W + unat col < unat W * unat H"
    by (rule row_col_less)
  then show "(unat (y p) mod unat H) * unat W + unat (x p) mod unat W < unat W * unat H"
    by (simp add: row(2) col(2))
  have "unat (row * W + col) = (unat row * unat W mod 2 ^ 64 + unat col) mod 2 ^ 64"
    by (simp add: unat_word_ariths)
  also have "\<dots> = unat row * unat W + unat col"
    using below assms(5) by simp
  finally have "row * W + col = of_nat (unat row * unat W + unat col)"
    by (simp add: word_unat_eq_iff unat_of_nat_small below assms(5))
  then show "index W H p
    = Some (of_nat ((unat (y p) mod unat H) * unat W + unat (x p) mod unat W))"
    by (simp add: index_def row col)
qed

lemma below_2_64:
  fixes k m :: nat
  assumes "k < m" "m \<le> 2 ^ 63"
  shows "k < 2 ^ 64"
proof -
  have "(2 :: nat) ^ 63 \<le> 2 ^ 64" by simp
  with assms show ?thesis by linarith
qed

lemma index_row_major:
  assumes "0 < W" "0 < H" "unat W \<le> 2 ^ 63" "unat H \<le> 2 ^ 63" "unat W * unat H < 2 ^ 64"
    and "i < unat W * unat H"
  shows "index W H (row_major W H ! i) = Some (of_nat i)"
proof -
  have pos: "0 < unat W"
    using assms(1) by (simp add: word_less_nat_alt)
  have "i mod unat W < unat W"
    using pos by simp
  then have col: "i mod unat W < 2 ^ 64"
    using assms(3) by (rule below_2_64)
  have below: "i div unat W < unat H"
    using assms(6) pos by (simp add: less_mult_imp_div_less mult.commute)
  then have "i div unat W < 2 ^ 64"
    using assms(4) by (rule below_2_64)
  with below have row: "i div unat W < 2 ^ 64" "i div unat W mod unat H = i div unat W"
    by simp_all
  let ?p = "row_major W H ! i"
  have "unat (x ?p) = i mod unat W" "unat (y ?p) = i div unat W"
    using col row(1) by (simp_all add: nth_row_major [OF assms(6)] unat_of_nat_small)
  then have "unat (y ?p) mod unat H * unat W + unat (x ?p) mod unat W = i"
    by (simp add: row(2))
  with index_nat(1) [OF assms(1-5), of ?p] show ?thesis
    by (simp only:)
qed


lemma distinct_row_major:
  assumes "0 < W" "0 < H" "unat W \<le> 2 ^ 63" "unat H \<le> 2 ^ 63" "unat W * unat H < 2 ^ 64"
  shows "distinct (row_major W H)"
proof -
  have "row_major W H ! i \<noteq> row_major W H ! j"
    if "i < unat W * unat H" "j < unat W * unat H" "i \<noteq> j" for i j
  proof
    assume "row_major W H ! i = row_major W H ! j"
    then have "index W H (row_major W H ! i) = index W H (row_major W H ! j)"
      by simp
    then have "(of_nat i :: 64 word) = of_nat j"
      by (simp add: index_row_major [OF assms] that(1,2))
    then have "unat (of_nat i :: 64 word) = unat (of_nat j :: 64 word)"
      by simp
    moreover have "i < 2 ^ 64" "j < 2 ^ 64"
      using that(1,2) assms(5) by simp_all
    ultimately have "i = j"
      by (simp only: unat_of_nat_small)
    with that(3) show False by simp
  qed
  then show ?thesis
    by (simp add: distinct_conv_nth length_row_major)
qed

lemma set_row_major:
  assumes "0 < W" "0 < H" "unat W \<le> 2 ^ 63" "unat H \<le> 2 ^ 63" "unat W * unat H < 2 ^ 64"
  shows "set (row_major W H) = {p :: Point. x p < W \<and> y p < H}"
proof (intro set_eqI iffI)
  fix p :: Point
  assume "p \<in> set (row_major W H)"
  then obtain i where i: "i < unat W * unat H" and p: "p = row_major W H ! i"
    by (auto simp: in_set_conv_nth length_row_major)
  have pos: "0 < unat W"
    using assms(1) by (simp add: word_less_nat_alt)
  have col: "i mod unat W < unat W"
    using pos by simp
  have row: "i div unat W < unat H"
    using i pos by (simp add: less_mult_imp_div_less mult.commute)
  have "unat (of_nat (i mod unat W) :: 64 word) = i mod unat W"
    using col assms(3) by (intro unat_of_nat_small below_2_64)
  moreover have "unat (of_nat (i div unat W) :: 64 word) = i div unat W"
    using row assms(4) by (intro unat_of_nat_small below_2_64)
  ultimately show "p \<in> {p. x p < W \<and> y p < H}"
    using col row by (simp add: p nth_row_major [OF i] word_less_nat_alt)
next
  fix p :: Point
  assume "p \<in> {p. x p < W \<and> y p < H}"
  then have col: "unat (x p) < unat W" and row: "unat (y p) < unat H"
    by (simp_all add: word_less_nat_alt)
  define i where "i = unat (y p) * unat W + unat (x p)"
  have i: "i < unat W * unat H"
    unfolding i_def using row col by (rule row_col_less)
  have "i mod unat W = unat (x p)" "i div unat W = unat (y p)"
    using col by (simp_all add: i_def)
  then have "row_major W H ! i = p"
    by (simp add: nth_row_major [OF i])
  then show "p \<in> set (row_major W H)"
    using i by (metis length_row_major nth_mem)
qed

text \<open>
  C5. The index cache has \<open>width * height\<close> entries and lists every coordinate
  \<open>(x, y)\<close> with \<open>x < width\<close> and \<open>y < height\<close> exactly once, row by row; entry
  \<open>i\<close> is mapped by \<open>index\<close> to storage slot \<open>i\<close>. The dimensions are positive, at most
  \<open>2^63\<close> (coordinates below them are non-negative \<open>int64_t\<close> values) and their product
  is a \<open>std::size_t\<close>.
\<close>

theorem make_indexes_order:
  assumes "0 < W" and "0 < H" and "unat W \<le> 2 ^ 63" and "unat H \<le> 2 ^ 63"
    and "unat W * unat H < 2 ^ 64"
  shows "\<exists>indices. make_indexes W H = Some indices
           \<and> length indices = unat W * unat H
           \<and> (\<forall>i < length indices.
                 indices ! i = \<lparr>x = of_nat (i mod unat W), y = of_nat (i div unat W)\<rparr>
                 \<and> index W H (indices ! i) = Some (of_nat i))
           \<and> distinct indices
           \<and> set indices = {p :: Point. x p < W \<and> y p < H}"
proof -
  have "make_indexes W H = Some (row_major W H)"
    using assms(5) by (rule make_indexes_row_major)
  moreover have "length (row_major W H) = unat W * unat H"
    by (rule length_row_major)
  moreover have "\<forall>i < length (row_major W H).
      row_major W H ! i = \<lparr>x = of_nat (i mod unat W), y = of_nat (i div unat W)\<rparr>
      \<and> index W H (row_major W H ! i) = Some (of_nat i)"
  proof (intro allI impI conjI)
    fix i
    assume "i < length (row_major W H)"
    then have i: "i < unat W * unat H"
      by (simp only: length_row_major)
    show "row_major W H ! i = \<lparr>x = of_nat (i mod unat W), y = of_nat (i div unat W)\<rparr>"
      using i by (rule nth_row_major)
    show "index W H (row_major W H ! i) = Some (of_nat i)"
      using assms i by (rule index_row_major)
  qed
  moreover have "distinct (row_major W H)"
    using assms by (rule distinct_row_major)
  moreover have "set (row_major W H) = {p :: Point. x p < W \<and> y p < H}"
    using assms by (rule set_row_major)
  ultimately show ?thesis
    by (intro exI [of _ "row_major W H"] conjI)
qed

theorem make_indexes_order_witness:
  "\<exists>indices. make_indexes 3 2 = Some indices
     \<and> length indices = unat (3 :: 64 word) * unat (2 :: 64 word)
     \<and> (\<forall>i < length indices.
           indices ! i = \<lparr>x = of_nat (i mod unat (3 :: 64 word)), y = of_nat (i div unat (3 :: 64 word))\<rparr>
           \<and> index 3 2 (indices ! i) = Some (of_nat i))
     \<and> distinct indices
     \<and> set indices = {p :: Point. x p < 3 \<and> y p < 2}"
proof -
  have "(0 :: 64 word) < 3" "(0 :: 64 word) < 2"
    "unat (3 :: 64 word) \<le> 2 ^ 63" "unat (2 :: 64 word) \<le> 2 ^ 63"
    "unat (3 :: 64 word) * unat (2 :: 64 word) < 2 ^ 64"
    by simp_all
  then show ?thesis by (rule make_indexes_order)
qed

subsection \<open>A step on a board given by its live slots\<close>

lemma length_board_of: "length (board_of L n) = n"
  by (simp add: board_of_def)

lemma nth_board_of: "i < n \<Longrightarrow> board_of L n ! i \<longleftrightarrow> i \<in> set L"
  by (simp add: board_of_def)

lemma new_board_board_of: "new_board W H = board_of [] (unat (W * H))"
  by (simp add: new_board_def board_of_def map_replicate_const)

lemma get_board_of:
  assumes "0 < W" "0 < H" "unat W \<le> 2 ^ 63" "unat H \<le> 2 ^ 63" "unat W * unat H < 2 ^ 64"
    and "n = unat W * unat H"
  shows "get W H (board_of L n) p
           = Some ((unat (y p) mod unat H) * unat W + unat (x p) mod unat W \<in> set L)"
proof -
  let ?k = "(unat (y p) mod unat H) * unat W + unat (x p) mod unat W"
  have k: "?k < n" "?k < 2 ^ 64"
    using index_nat(2) [OF assms(1-5), of p] assms(5,6) by simp_all
  have "index W H p = Some (of_nat ?k)"
    by (rule index_nat(1) [OF assms(1-5)])
  moreover have "unat (of_nat ?k :: 64 word) = ?k"
    using k(2) by (rule unat_of_nat_small)
  ultimately show ?thesis
    using k(1) by (simp add: get_def length_board_of nth_board_of)
qed

lemma set_cell_board_of:
  assumes "0 < W" "0 < H" "unat W \<le> 2 ^ 63" "unat H \<le> 2 ^ 63" "unat W * unat H < 2 ^ 64"
    and "n = unat W * unat H"
  shows "set_cell W H (board_of L n) p
           = Some (board_of (((unat (y p) mod unat H) * unat W + unat (x p) mod unat W) # L) n)"
proof -
  let ?k = "(unat (y p) mod unat H) * unat W + unat (x p) mod unat W"
  have k: "?k < n" "?k < 2 ^ 64"
    using index_nat(2) [OF assms(1-5), of p] assms(5,6) by simp_all
  have "index W H p = Some (of_nat ?k)"
    by (rule index_nat(1) [OF assms(1-5)])
  moreover have "unat (of_nat ?k :: 64 word) = ?k"
    using k(2) by (rule unat_of_nat_small)
  moreover have "(board_of L n)[?k := True] = board_of (?k # L) n"
    using k(1) by (intro nth_equalityI) (auto simp: length_board_of nth_board_of nth_list_update)
  ultimately show ?thesis
    using k(1) by (simp add: set_cell_def length_board_of)
qed

lemma count_loop_board_of:
  assumes "0 < W" "0 < H" "unat W \<le> 2 ^ 63" "unat H \<le> 2 ^ 63" "unat W * unat H < 2 ^ 64"
    and "n = unat W * unat H"
  shows "count_loop W H (board_of L n) p ns k
    = Some (k + length (filter (\<lambda>s. s \<in> set L)
        (map (\<lambda>nb. (unat (y p + y nb) mod unat H) * unat W + unat (x p + x nb) mod unat W) ns)))"
  by (induction ns arbitrary: k) (simp_all add: get_board_of [OF assms] point_add_def)

lemma unat_dec:
  assumes "c < 2 ^ 64"
  shows "unat (of_nat c + (- 1) :: 64 word) = (if c = 0 then 18446744073709551615 else c - 1)"
proof (cases "c = 0")
  case True
  then show ?thesis
    by (simp add: unsigned_minus_1_eq_mask mask_eq_exp_minus_1)
next
  case False
  then obtain k where c: "c = Suc k"
    by (cases c) simp_all
  have e: "of_nat (Suc k) + (- 1 :: 64 word) = of_nat k"
    by simp
  have "k < 2 ^ 64"
    using assms c by simp
  then have "unat (of_nat k :: 64 word) = k"
    by (rule unat_of_nat_small)
  then show ?thesis
    unfolding c e by simp
qed

lemma unat_inc:
  assumes "c < m" "m \<le> 2 ^ 63"
  shows "unat (of_nat c + 1 :: 64 word) = c + 1"
proof -
  have "of_nat c + (1 :: 64 word) = of_nat (c + 1)"
    by simp
  moreover have "c + 1 < 2 ^ 64"
    using assms by simp
  ultimately show ?thesis
    by (simp only: unat_of_nat_small)
qed

lemma wrap_steps:
  assumes "c < m" "m \<le> 2 ^ 63"
  shows "unat (of_nat c + (- 1) :: 64 word) mod m
           = (if c = 0 then 18446744073709551615 mod m else c - 1)"
    and "unat (of_nat c + 1 :: 64 word) mod m = (if c + 1 = m then 0 else c + 1)"
    and "unat (of_nat c + 0 :: 64 word) mod m = c"
proof -
  have c: "c < 2 ^ 64"
    using assms by (rule below_2_64)
  show "unat (of_nat c + (- 1) :: 64 word) mod m
           = (if c = 0 then 18446744073709551615 mod m else c - 1)"
    unfolding unat_dec [OF c] using assms(1) by simp
  show "unat (of_nat c + 1 :: 64 word) mod m = (if c + 1 = m then 0 else c + 1)"
    unfolding unat_inc [OF assms] using assms(1) by simp
  show "unat (of_nat c + 0 :: 64 word) mod m = c"
    using assms(1) c by (simp add: unat_of_nat_small)
qed

lemma count_neighbors_board_of:
  assumes "0 < W" "0 < H" "unat W \<le> 2 ^ 63" "unat H \<le> 2 ^ 63" "unat W * unat H < 2 ^ 64"
    and "n = unat W * unat H" and "c < unat W" and "r < unat H"
  shows "count_neighbors W H (board_of L n) \<lparr>x = of_nat c, y = of_nat r\<rparr>
           = Some (live_count (unat W) (unat H)
               (18446744073709551615 mod unat W) (18446744073709551615 mod unat H) L c r)"
proof -
  note col = wrap_steps [OF assms(7) assms(3)]
  note row = wrap_steps [OF assms(8) assms(4)]
  have "map (\<lambda>nb. (unat (of_nat r + y nb :: 64 word) mod unat H) * unat W
          + unat (of_nat c + x nb :: 64 word) mod unat W) neighbors
      = neighbor_slots (unat W) (unat H)
          (18446744073709551615 mod unat W) (18446744073709551615 mod unat H) c r"
    unfolding neighbors_def neighbor_slots_def Let_def list.map Point.simps col row
    by simp
  then show ?thesis
    by (simp add: count_neighbors_def count_loop_board_of [OF assms(1-6)] live_count_def)
qed


lemma rules_board_of:
  assumes "0 < W" "0 < H" "unat W \<le> 2 ^ 63" "unat H \<le> 2 ^ 63" "unat W * unat H < 2 ^ 64"
    and "n = unat W * unat H" and "c < unat W" and "r < unat H"
  shows "rules W H (board_of L n) \<lparr>x = of_nat c, y = of_nat r\<rparr>
    = Some (rules_branches (r * unat W + c \<in> set L)
        (live_count (unat W) (unat H)
           (18446744073709551615 mod unat W) (18446744073709551615 mod unat H) L c r))"
proof -
  have "unat (of_nat c :: 64 word) = c" "unat (of_nat r :: 64 word) = r"
    using assms(3,4,7,8) by (auto intro: unat_of_nat_small below_2_64)
  then have "get W H (board_of L n) \<lparr>x = of_nat c, y = of_nat r\<rparr>
      = Some (r * unat W + c \<in> set L)"
    using assms(7,8) by (simp add: get_board_of [OF assms(1-6)])
  then show ?thesis
    by (simp add: rules_def count_neighbors_board_of [OF assms])
qed

lemma step_board_of:
  assumes "0 < W" "0 < H" "unat W \<le> 2 ^ 63" "unat H \<le> 2 ^ 63" "unat W * unat H < 2 ^ 64"
    and "n = unat W * unat H" and "length out = n"
    and "list_all (\<lambda>r. list_all (\<lambda>c.
            rules_branches (r * unat W + c \<in> set L)
              (live_count (unat W) (unat H)
                 (18446744073709551615 mod unat W) (18446744073709551615 mod unat H) L c r)
            = (r * unat W + c \<in> set L')) [0..<unat W]) [0..<unat H]"
  shows "iterate_board W H (board_of L n) out (row_major W H) = Some (board_of L' n)"
proof -
  have "iterate_board W H (board_of L n) out (row_major W H)
      = Some (map (\<lambda>p. the (rules W H (board_of L n) p)) (row_major W H))"
    using assms(1,2) by (rule iterate_board_total)
      (simp_all add: length_board_of length_row_major assms(6,7))
  moreover have "map (\<lambda>p. the (rules W H (board_of L n) p)) (row_major W H) = board_of L' n"
  proof (rule nth_equalityI)
    show "length (map (\<lambda>p. the (rules W H (board_of L n) p)) (row_major W H))
        = length (board_of L' n)"
      by (simp add: length_board_of length_row_major assms(6))
  next
    fix i
    assume "i < length (map (\<lambda>p. the (rules W H (board_of L n) p)) (row_major W H))"
    then have i: "i < unat W * unat H"
      by (simp add: length_row_major)
    have pos: "0 < unat W"
      using assms(1) by (simp add: word_less_nat_alt)
    define c r where "c = i mod unat W" and "r = i div unat W"
    have c: "c < unat W"
      using pos by (simp add: c_def)
    have r: "r < unat H"
      using i pos by (simp add: r_def less_mult_imp_div_less mult.commute)
    have slot: "r * unat W + c = i"
      by (simp add: c_def r_def)
    have p: "row_major W H ! i = \<lparr>x = of_nat c, y = of_nat r\<rparr>"
      unfolding c_def r_def using i by (rule nth_row_major)
    have "rules_branches (r * unat W + c \<in> set L)
        (live_count (unat W) (unat H)
           (18446744073709551615 mod unat W) (18446744073709551615 mod unat H) L c r)
        = (r * unat W + c \<in> set L')"
      using assms(8) c r by (simp add: list_all_iff)
    then have "the (rules W H (board_of L n) (row_major W H ! i)) = (i \<in> set L')"
      unfolding p rules_board_of [OF assms(1-6) c r] slot by simp
    then show "map (\<lambda>p. the (rules W H (board_of L n) p)) (row_major W H) ! i = board_of L' n ! i"
      using i by (simp add: nth_board_of length_row_major assms(6))
  qed
  ultimately show ?thesis by simp
qed

subsection \<open>The glider on the 20 by 20 board\<close>

lemma upt_20: "[0..<20] = [0, 1, 2, 3, 4, 5, 6, 7, 8, 9, 10, 11, 12, 13, 14, 15, 16, 17, 18, 19]"
  by (simp add: upt_conv_Cons)

lemma board_20:
  "(0 :: 64 word) < 20" "(0 :: 64 word) < 20"
  "unat (20 :: 64 word) \<le> 2 ^ 63" "unat (20 :: 64 word) \<le> 2 ^ 63"
  "unat (20 :: 64 word) * unat (20 :: 64 word) < 2 ^ 64"
  "400 = unat (20 :: 64 word) * unat (20 :: 64 word)"
  by simp_all

lemma glider_generation_1:
  assumes "length out = 400"
  shows "iterate_board 20 20 (board_of [102, 101, 83, 82, 61] 400) out (row_major 20 20)
    = Some (board_of [62, 83, 101, 102, 103] 400)"
  using board_20 assms
  by (rule step_board_of)
    (simp add: upt_20 live_count_def neighbor_slots_def Let_def rules_branches_def)

lemma glider_generation_2:
  assumes "length out = 400"
  shows "iterate_board 20 20 (board_of [62, 83, 101, 102, 103] 400) out (row_major 20 20)
    = Some (board_of [81, 83, 102, 103, 122] 400)"
  using board_20 assms
  by (rule step_board_of)
    (simp add: upt_20 live_count_def neighbor_slots_def Let_def rules_branches_def)

lemma glider_generation_3:
  assumes "length out = 400"
  shows "iterate_board 20 20 (board_of [81, 83, 102, 103, 122] 400) out (row_major 20 20)
    = Some (board_of [83, 101, 103, 122, 123] 400)"
  using board_20 assms
  by (rule step_board_of)
    (simp add: upt_20 live_count_def neighbor_slots_def Let_def rules_branches_def)

lemma glider_generation_4:
  assumes "length out = 400"
  shows "iterate_board 20 20 (board_of [83, 101, 103, 122, 123] 400) out (row_major 20 20)
    = Some (board_of [123, 122, 104, 103, 82] 400)"
  using board_20 assms
  by (rule step_board_of)
    (simp add: upt_20 live_count_def neighbor_slots_def Let_def rules_branches_def)

lemma add_glider_20:
  "add_glider 20 20 (board_of [] 400) \<lparr>x = 1, y = 3\<rparr> = Some (board_of [102, 101, 83, 82, 61] 400)"
  "add_glider 20 20 (board_of [] 400) \<lparr>x = 2, y = 4\<rparr> = Some (board_of [123, 122, 104, 103, 82] 400)"
  by (simp_all add: add_glider_def set_cell_board_of [OF board_20] point_add_def)

text \<open>
  C8. The 20 by 20 board seeded with one glider at anchor \<open>(1,3)\<close>: after exactly four
  steps the board is the one obtained by seeding an empty board with a glider at anchor
  \<open>(2,4)\<close>; its live cells are the slots of \<open>(2,4)\<close>, \<open>(3,5)\<close>, \<open>(4,5)\<close>,
  \<open>(2,6)\<close> and \<open>(3,6)\<close> and no other cell of the board is alive.
\<close>

theorem glider_translation:
  "do { b \<leftarrow> add_glider 20 20 (new_board 20 20) \<lparr>x = 1, y = 3\<rparr>; simulate 20 20 b 4 }
     = add_glider 20 20 (new_board 20 20) \<lparr>x = 2, y = 4\<rparr>
   \<and> add_glider 20 20 (new_board 20 20) \<lparr>x = 2, y = 4\<rparr>
     = Some (map (\<lambda>i. i \<in> {82, 103, 104, 122, 123}) [0..<400])"
proof -
  have empty: "new_board 20 20 = board_of [] 400"
    by (simp add: new_board_board_of)
  have indices: "make_indexes 20 20 = Some (row_major 20 20)"
    by (rule make_indexes_row_major) simp
  have "run_loop 20 20 (row_major 20 20) (Suc (Suc (Suc (Suc 0))))
      (board_of [102, 101, 83, 82, 61] 400) (board_of [] 400)
    = Some (board_of [123, 122, 104, 103, 82] 400, board_of [83, 101, 103, 122, 123] 400)"
    by (simp add: glider_generation_1 glider_generation_2 glider_generation_3
        glider_generation_4 length_board_of)
  then have "simulate 20 20 (board_of [102, 101, 83, 82, 61] 400) 4
      = Some (board_of [123, 122, 104, 103, 82] 400)"
    by (simp add: simulate_def indices empty numeral_eq_Suc)
  moreover have "board_of [123, 122, 104, 103, 82] 400
      = map (\<lambda>i. i \<in> {82, 103, 104, 122, 123}) [0..<400]"
    unfolding board_of_def by (rule map_cong) auto
  ultimately show ?thesis
    by (simp add: empty add_glider_20)
qed

end
